theory Spec2Isabelle
  imports Main
begin

section \<open>The backing store\<close>

text \<open>
  The repository keeps all of its state in Redis under four kinds of key:
  the set \<^verbatim>\<open>token_pool\<close> (Available), the set \<^verbatim>\<open>assigned_tokens\<close> (Assigned),
  the sorted set \<^verbatim>\<open>keepalive_tokens\<close> (token to epoch-second score) and one string key
  \<^verbatim>\<open>lock:<token>\<close> per pending assignment, set with a time to live.

  A Redis set is modelled by the duplicate-free list of its members in the order in which
  the store enumerates them; no theorem below depends on that order. The sorted set is a
  partial map from token to score. Scores are written by the code as
  \<^verbatim>\<open>float64(time.Now().Unix() + c)\<close> and read back with \<^verbatim>\<open>int64(expiry)\<close>,
  so they are modelled as integers; they are clock readings plus a constant, far from the
  bounds of \<^verbatim>\<open>int64\<close>, and the model leaves them unbounded. A lock is the instant at
  which its key expires.

  The model is sequential: it describes calls that run one after the other, each to its
  end. A call reads the clock once.
\<close>

record store =
  pool :: "string list"
  assigned :: "string list"
  keepalive :: "string \<rightharpoonup> int"
  locks :: "string \<rightharpoonup> int"

definition empty_store :: store where
  "empty_store = \<lparr>pool = [], assigned = [], keepalive = Map.empty, locks = Map.empty\<rparr>"

text \<open>The two set keys of \<^verbatim>\<open>constants.go\<close>. \<^verbatim>\<open>AssignToken\<close> writes the same keys as
  string literals.\<close>

datatype skey = KeyTokenPool | KeyAssignedTokens

fun members :: "skey \<Rightarrow> store \<Rightarrow> string list" where
  "members KeyTokenPool s = pool s"
| "members KeyAssignedTokens s = assigned s"

fun put_members :: "skey \<Rightarrow> string list \<Rightarrow> store \<Rightarrow> store" where
  "put_members KeyTokenPool xs s = s\<lparr>pool := xs\<rparr>"
| "put_members KeyAssignedTokens xs s = s\<lparr>assigned := xs\<rparr>"

text \<open>Configuration constants of \<^verbatim>\<open>constants.go\<close> (seconds).\<close>

definition TokenLockTime :: int where "TokenLockTime = 60"
definition TokenAutoReleaseTime :: int where "TokenAutoReleaseTime = 60"
definition TokenDeletionTime :: int where "TokenDeletionTime = 5 * 60"

subsection \<open>Store commands\<close>

text \<open>Each write returns the integer reply of the Redis command (the number of members
  added or removed) and the new store.\<close>

definition sadd :: "skey \<Rightarrow> string \<Rightarrow> store \<Rightarrow> int \<times> store" where
  "sadd k t s = (if t \<in> set (members k s) then (0, s)
                 else (1, put_members k (members k s @ [t]) s))"

definition srem :: "skey \<Rightarrow> string \<Rightarrow> store \<Rightarrow> int \<times> store" where
  "srem k t s = (if t \<in> set (members k s)
                 then (1, put_members k (removeAll t (members k s)) s)
                 else (0, s))"

definition zadd :: "string \<Rightarrow> int \<Rightarrow> store \<Rightarrow> int \<times> store" where
  "zadd t score s = ((case keepalive s t of None \<Rightarrow> 1 | Some _ \<Rightarrow> 0),
                     s\<lparr>keepalive := (keepalive s)(t \<mapsto> score)\<rparr>)"

definition zrem :: "string \<Rightarrow> store \<Rightarrow> int \<times> store" where
  "zrem t s = (case keepalive s t of None \<Rightarrow> (0, s)
               | Some _ \<Rightarrow> (1, s\<lparr>keepalive := (keepalive s)(t := None)\<rparr>))"

text \<open>\<^verbatim>\<open>SPOP\<close> removes an arbitrary member. Which one is the store's choice; the choice is
  the parameter \<open>n\<close>, so that every member can be the one popped.\<close>

definition spop :: "nat \<Rightarrow> store \<Rightarrow> (string \<times> store) option" where
  "spop n s = (if pool s = [] then None
               else let t = pool s ! (n mod length (pool s))
                    in Some (t, s\<lparr>pool := removeAll t (pool s)\<rparr>))"

text \<open>\<^verbatim>\<open>SET key value NX EX ttl\<close> at time \<open>now\<close>: succeeds when the key is absent or
  its time to live has run out.\<close>

definition lock_held :: "int \<Rightarrow> store \<Rightarrow> string \<Rightarrow> bool" where
  "lock_held now s t = (case locks s t of None \<Rightarrow> False | Some e \<Rightarrow> now < e)"

definition setnx :: "string \<Rightarrow> int \<Rightarrow> store \<Rightarrow> bool \<times> store" where
  "setnx t now s = (if lock_held now s t then (False, s)
                    else (True, s\<lparr>locks := (locks s)(t \<mapsto> now + TokenLockTime)\<rparr>))"

definition del_lock :: "string \<Rightarrow> store \<Rightarrow> store" where
  "del_lock t s = s\<lparr>locks := (locks s)(t := None)\<rparr>"

subsection \<open>Failures of the store\<close>

text \<open>
  Any call to the store can fail (connection lost, timeout). An invocation of a
  repository operation is given \<open>f :: faults\<close>: \<open>f i\<close> says that the call number \<open>i\<close>
  of this invocation, counted from 0 in program order, fails. A failed call has no effect
  on the store; a failed \<^verbatim>\<open>EXEC\<close> applies none of its queued commands (the store's
  transactions are all or nothing). The model lets every call fail, also an
  \<^verbatim>\<open>Exec\<close> with nothing queued.
\<close>

type_synonym faults = "nat \<Rightarrow> bool"

definition no_faults :: faults where
  "no_faults = (\<lambda>_. False)"

text \<open>The reply of \<^verbatim>\<open>ZSCORE\<close>: \<^verbatim>\<open>redis.Nil\<close>, another error, or the score.\<close>

datatype reply = RNil | RErr | RVal int

definition zscore :: "bool \<Rightarrow> string \<Rightarrow> store \<Rightarrow> reply" where
  "zscore fail t s = (if fail then RErr
                      else case keepalive s t of None \<Rightarrow> RNil | Some v \<Rightarrow> RVal v)"

text \<open>A transaction pipeline is the list of queued commands; \<^verbatim>\<open>Exec\<close> runs them in
  order and returns their integer replies.\<close>

datatype cmd = SAdd skey string | SRem skey string | ZAdd string int | ZRem string

fun run_cmd :: "cmd \<Rightarrow> store \<Rightarrow> int \<times> store" where
  "run_cmd (SAdd k t) s = sadd k t s"
| "run_cmd (SRem k t) s = srem k t s"
| "run_cmd (ZAdd t score) s = zadd t score s"
| "run_cmd (ZRem t) s = zrem t s"

fun run_cmds :: "cmd list \<Rightarrow> store \<Rightarrow> int list \<times> store" where
  "run_cmds [] s = ([], s)"
| "run_cmds (c # cs) s =
     (case run_cmd c s of (r, s1) \<Rightarrow>
        (case run_cmds cs s1 of (rs, s2) \<Rightarrow> (r # rs, s2)))"

definition exec :: "bool \<Rightarrow> cmd list \<Rightarrow> store \<Rightarrow> int list option \<times> store" where
  "exec fail pipe s = (if fail then (None, s)
                       else case run_cmds pipe s of (rs, s') \<Rightarrow> (Some rs, s'))"

section \<open>The token repository\<close>

text \<open>The sentinel errors of \<^verbatim>\<open>constants.go\<close>; \<open>RedisErr\<close> is an error of the store
  returned as it is, \<open>Wrapped m\<close> one wrapped by \<^verbatim>\<open>fmt.Errorf\<close> with the message \<open>m\<close>.\<close>

datatype error =
    ErrNoAvailableTokens
  | ErrTokenNotFound
  | ErrTokenNotAssigned
  | ErrFailedKeepAlive
  | ErrTokenAlreadyInUse
  | RedisErr
  | Wrapped string

text \<open>Every operation takes the failures \<open>f\<close> of its store calls and the clock reading
  \<open>now\<close> (\<^verbatim>\<open>time.Now().Unix()\<close>) where it reads the clock, and returns its result with
  the store it leaves behind.\<close>

definition SaveToken :: "faults \<Rightarrow> int \<Rightarrow> string \<Rightarrow> store \<Rightarrow> (error + unit) \<times> store" where
  "SaveToken f now token s =
     (if f 0 then (Inl (Wrapped ''failed to save token''), s)
      else let s1 = snd (sadd KeyTokenPool token s) in
        if f 1 then (Inl (Wrapped ''failed to initialize token keepalive''), s1)
        else (Inr (), snd (zadd token now s1)))"

definition AssignToken :: "faults \<Rightarrow> int \<Rightarrow> nat \<Rightarrow> store \<Rightarrow> (error + string) \<times> store" where
  "AssignToken f now n s =
     (if f 0 then (Inl RedisErr, s)
      else (case spop n s of
        None \<Rightarrow> (Inl ErrNoAvailableTokens, s)
      | Some (token, s1) \<Rightarrow>
          if f 1 then (Inl RedisErr, s1)
          else (case setnx token now s1 of (success, s2) \<Rightarrow>
            if \<not> success then (Inl ErrTokenAlreadyInUse, s2)
            else (case exec (f 2) [SAdd KeyAssignedTokens token, ZAdd token (now + 60)] s2 of
                (None, s3) \<Rightarrow> (Inl RedisErr, if f 3 then s3 else del_lock token s3)
              | (Some rs, s3) \<Rightarrow> (Inr token, s3)))))"

definition KeepAlive :: "faults \<Rightarrow> int \<Rightarrow> string \<Rightarrow> store \<Rightarrow> (error + unit) \<times> store" where
  "KeepAlive f now token s =
     (if f 0 then (Inl (Wrapped ''failed to check token in pool''), s)
      else let inPool = (token \<in> set (pool s)) in
        if f 1 then (Inl (Wrapped ''failed to check token in assigned''), s)
        else let inAssigned = (token \<in> set (assigned s)) in
          if \<not> inPool \<and> \<not> inAssigned then (Inl ErrTokenNotFound, s)
          else if f 2 then (Inl ErrFailedKeepAlive, s)
          else (Inr (), snd (zadd token (now + TokenAutoReleaseTime) s)))"

subsection \<open>Reconciliation\<close>

record CleanupResult =
  TokensReleased :: int
  TokensDeleted :: int
  ProcessingError :: "error option"

definition no_result :: CleanupResult where
  "no_result = \<lparr>TokensReleased = 0, TokensDeleted = 0, ProcessingError = None\<rparr>"

text \<open>The loop of \<^verbatim>\<open>cleanupAssignedTokens\<close> over the members read before it: \<open>i\<close> is
  the number of the \<^verbatim>\<open>ZSCORE\<close> call of the current token, \<open>s\<close> the store the scores
  are read from (the queued commands run only at \<^verbatim>\<open>Exec\<close>), and the accumulator holds
  the pipeline and the counters.\<close>

fun assigned_loop ::
  "faults \<Rightarrow> nat \<Rightarrow> int \<Rightarrow> int \<Rightarrow> store \<Rightarrow> string list \<Rightarrow> cmd list \<times> CleanupResult
     \<Rightarrow> cmd list \<times> CleanupResult" where
  "assigned_loop f i releaseBefore deleteBefore s [] acc = acc"
| "assigned_loop f i releaseBefore deleteBefore s (token # rest) (pipe, result) =
     assigned_loop f (Suc i) releaseBefore deleteBefore s rest
       (case zscore (f i) token s of
          RNil \<Rightarrow> (pipe @ [SRem KeyAssignedTokens token, ZRem token],
                   result\<lparr>TokensDeleted := TokensDeleted result + 1\<rparr>)
        | RErr \<Rightarrow> (pipe, result)
        | RVal expiryTime \<Rightarrow>
            if expiryTime \<le> deleteBefore
            then (pipe @ [SRem KeyAssignedTokens token, ZRem token],
                  result\<lparr>TokensDeleted := TokensDeleted result + 1\<rparr>)
            else if expiryTime \<le> releaseBefore
            then (pipe @ [SRem KeyAssignedTokens token, SAdd KeyTokenPool token],
                  result\<lparr>TokensReleased := TokensReleased result + 1\<rparr>)
            else (pipe, result))"

definition cleanupAssignedTokens ::
  "faults \<Rightarrow> int \<Rightarrow> int \<Rightarrow> store \<Rightarrow> CleanupResult \<times> store" where
  "cleanupAssignedTokens f releaseBefore deleteBefore s =
     (if f 0
      then (no_result\<lparr>ProcessingError := Some (Wrapped ''failed to fetch assigned tokens'')\<rparr>, s)
      else let assignedTokens = assigned s in
        if length assignedTokens = 0 then (no_result, s)
        else (case assigned_loop f 1 releaseBefore deleteBefore s assignedTokens ([], no_result) of
          (pipe, result) \<Rightarrow>
            (case exec (f (Suc (length assignedTokens))) pipe s of
               (None, s') \<Rightarrow>
                 (result\<lparr>ProcessingError :=
                    Some (Wrapped ''failed to execute cleanup for assigned tokens'')\<rparr>, s')
             | (Some rs, s') \<Rightarrow> (result, s'))))"

text \<open>The loop of \<^verbatim>\<open>cleanupPoolTokens\<close>. A failed \<^verbatim>\<open>ZSCORE\<close> returns from the
  function at once (\<open>Inl\<close>), before \<^verbatim>\<open>Exec\<close>: the pipeline is dropped.\<close>

fun pool_loop ::
  "faults \<Rightarrow> nat \<Rightarrow> int \<Rightarrow> store \<Rightarrow> string list \<Rightarrow> cmd list \<times> CleanupResult
     \<Rightarrow> CleanupResult + cmd list \<times> CleanupResult" where
  "pool_loop f i deleteBefore s [] acc = Inr acc"
| "pool_loop f i deleteBefore s (token # rest) (pipe, result) =
     (case zscore (f i) token s of
        RNil \<Rightarrow> pool_loop f (Suc i) deleteBefore s rest
                 (pipe @ [SRem KeyTokenPool token],
                  result\<lparr>TokensDeleted := TokensDeleted result + 1\<rparr>)
      | RVal expiry \<Rightarrow>
          if expiry \<le> deleteBefore
          then pool_loop f (Suc i) deleteBefore s rest
                 (pipe @ [SRem KeyTokenPool token, ZRem token],
                  result\<lparr>TokensDeleted := TokensDeleted result + 1\<rparr>)
          else pool_loop f (Suc i) deleteBefore s rest (pipe, result)
      | RErr \<Rightarrow>
          Inl (result\<lparr>ProcessingError :=
                 Some (Wrapped (''failed to fetch expiry for token '' @ token))\<rparr>))"

definition cleanupPoolTokens :: "faults \<Rightarrow> int \<Rightarrow> store \<Rightarrow> CleanupResult \<times> store" where
  "cleanupPoolTokens f deleteBefore s =
     (if f 0
      then (no_result\<lparr>ProcessingError := Some (Wrapped ''failed to fetch pool tokens'')\<rparr>, s)
      else let poolTokens = pool s in
        if length poolTokens = 0 then (no_result, s)
        else (case pool_loop f 1 deleteBefore s poolTokens ([], no_result) of
          Inl result \<Rightarrow> (result, s)
        | Inr (pipe, result) \<Rightarrow>
            (case exec (f (Suc (length poolTokens))) pipe s of
               (None, s') \<Rightarrow>
                 (result\<lparr>ProcessingError :=
                    Some (Wrapped ''failed to execute cleanup for pool tokens'')\<rparr>, s')
             | (Some rs, s') \<Rightarrow> (result, s'))))"

text \<open>
  \<^verbatim>\<open>cleanupExpiredTokens\<close> starts the two sweeps as goroutines and sums what they send
  on the result channel, keeping the first error received. Each sweep changes the store
  in its one transaction only, so a run is modelled as the two sweeps one after the
  other, in either order: \<open>assigned_first\<close> says which sweep runs (and reports) first;
  \<open>fa\<close> and \<open>fp\<close> are the failures of the assigned sweep and of the pool sweep.
\<close>

definition collect :: "CleanupResult \<Rightarrow> CleanupResult \<Rightarrow> CleanupResult" where
  "collect result res =
     \<lparr>TokensReleased = TokensReleased result + TokensReleased res,
      TokensDeleted = TokensDeleted result + TokensDeleted res,
      ProcessingError =
        (if ProcessingError res \<noteq> None \<and> ProcessingError result = None
         then ProcessingError res else ProcessingError result)\<rparr>"

definition cleanupExpiredTokens ::
  "bool \<Rightarrow> faults \<Rightarrow> faults \<Rightarrow> int \<Rightarrow> store \<Rightarrow> CleanupResult \<times> store" where
  "cleanupExpiredTokens assigned_first fa fp now s =
     (let releaseBefore = now - TokenAutoReleaseTime;
          deleteBefore = now - TokenDeletionTime
      in if assigned_first
         then (case cleanupAssignedTokens fa releaseBefore deleteBefore s of (ra, s1) \<Rightarrow>
                (case cleanupPoolTokens fp deleteBefore s1 of (rp, s2) \<Rightarrow>
                  (collect (collect no_result ra) rp, s2)))
         else (case cleanupPoolTokens fp deleteBefore s of (rp, s1) \<Rightarrow>
                (case cleanupAssignedTokens fa releaseBefore deleteBefore s1 of (ra, s2) \<Rightarrow>
                  (collect (collect no_result rp) ra, s2))))"

definition CleanupExpiredTokens ::
  "bool \<Rightarrow> faults \<Rightarrow> faults \<Rightarrow> int \<Rightarrow> store \<Rightarrow> (error + (string \<rightharpoonup> int)) \<times> store" where
  "CleanupExpiredTokens assigned_first fa fp now s =
     (case cleanupExpiredTokens assigned_first fa fp now s of (result, s') \<Rightarrow>
        (case ProcessingError result of
           Some e \<Rightarrow> (Inl e, s')
         | None \<Rightarrow>
             (Inr (Map.empty(''assigned_tokens'' \<mapsto> TokensReleased result,
                             ''token_pool'' \<mapsto> TokensDeleted result)), s')))"

subsection \<open>Delete, unblock, list\<close>

definition DeleteToken :: "faults \<Rightarrow> string \<Rightarrow> store \<Rightarrow> (error + unit) \<times> store" where
  "DeleteToken f token s =
     (case exec (f 0) [SRem KeyTokenPool token, SRem KeyAssignedTokens token, ZRem token] s of
        (None, s') \<Rightarrow> (Inl (Wrapped ''failed to delete token''), s')
      | (Some result, s') \<Rightarrow>
          let affected = list_ex (\<lambda>res. res > 0) result in
          if \<not> affected then (Inl ErrTokenNotFound, s') else (Inr (), s'))"

definition UnblockToken :: "faults \<Rightarrow> int \<Rightarrow> string \<Rightarrow> store \<Rightarrow> (error + unit) \<times> store" where
  "UnblockToken f now token s =
     (if f 0 then (Inl (Wrapped ''failed to check if token is assigned''), s)
      else let exists = (token \<in> set (assigned s)) in
        if \<not> exists then (Inl ErrTokenNotAssigned, s)
        else (case exec (f 1) [SRem KeyAssignedTokens token, SAdd KeyTokenPool token,
                               ZAdd token (now + TokenAutoReleaseTime)] s of
            (None, s') \<Rightarrow> (Inl (Wrapped ''failed to unblock token''), s')
          | (Some rs, s') \<Rightarrow> (Inr (), s')))"

definition GetAvailableTokens :: "faults \<Rightarrow> store \<Rightarrow> (error + string list) \<times> store" where
  "GetAvailableTokens f s =
     (if f 0 then (Inl (Wrapped ''failed to get available tokens''), s)
      else (Inr (members KeyTokenPool s), s))"

text \<open>The loop of \<^verbatim>\<open>GetAssignedTokensWithExpiry\<close>; a failed \<^verbatim>\<open>ZSCORE\<close> returns the
  error at once.\<close>

fun expiry_loop ::
  "faults \<Rightarrow> nat \<Rightarrow> int \<Rightarrow> store \<Rightarrow> string list \<Rightarrow> (string \<rightharpoonup> int) \<Rightarrow> error + (string \<rightharpoonup> int)" where
  "expiry_loop f i now s [] expiryMap = Inr expiryMap"
| "expiry_loop f i now s (token # rest) expiryMap =
     (case zscore (f i) token s of
        RNil \<Rightarrow> expiry_loop f (Suc i) now s rest (expiryMap(token \<mapsto> - 1))
      | RErr \<Rightarrow> Inl (Wrapped (''failed to get expiry for token '' @ token))
      | RVal expiry \<Rightarrow>
          let remaining = max (expiry - now) (- 1)
          in expiry_loop f (Suc i) now s rest (expiryMap(token \<mapsto> remaining)))"

definition GetAssignedTokensWithExpiry ::
  "faults \<Rightarrow> int \<Rightarrow> store \<Rightarrow> (error + (string \<rightharpoonup> int)) \<times> store" where
  "GetAssignedTokensWithExpiry f now s =
     (if f 0 then (Inl (Wrapped ''failed to get assigned tokens''), s)
      else let tokens = members KeyAssignedTokens s
           in (expiry_loop f 1 now s tokens Map.empty, s))"

section \<open>Failures and stores used in the examples\<close>

text \<open>The failures in which exactly the store call number \<open>k\<close> fails, and those in which
  the store is lost from the call number \<open>k\<close> on.\<close>

definition only_call :: "nat \<Rightarrow> faults" where
  "only_call k i = (i = k)"

definition from_call :: "nat \<Rightarrow> faults" where
  "from_call k i = (k \<le> i)"

text \<open>The token \<^verbatim>\<open>a1\<close> generated at time 0 and waiting in the pool.\<close>

definition fresh_store :: store where
  "fresh_store = snd (SaveToken no_faults 0 ''a1'' empty_store)"

text \<open>The token \<^verbatim>\<open>a1\<close> generated and assigned at time \<open>T = 0\<close>, with no failure.\<close>

definition leased_store :: store where
  "leased_store = snd (AssignToken no_faults 0 0 fresh_store)"

text \<open>The token \<^verbatim>\<open>a1\<close> generated at time 0 and popped by an \<^verbatim>\<open>AssignToken\<close> whose
  transaction (call 2) fails: it is left in neither set, with the keepalive entry of its
  generation.\<close>

definition orphan_store :: store where
  "orphan_store = snd (AssignToken (only_call 2) 0 0 fresh_store)"

section \<open>Sequences of operations\<close>

text \<open>
  One completed call of the service: each constructor carries the failures of the
  call's store requests and, where the operation reads the clock or leaves a choice to
  the store, the clock reading and the choice. \<open>Generate\<close> is \<^verbatim>\<open>GenerateToken\<close> of the
  service: it draws the token with \<^verbatim>\<open>uuid.New()\<close> and passes it to \<^verbatim>\<open>SaveToken\<close>; the
  token drawn is the last argument.
\<close>

datatype call =
    Generate faults int string
  | Assign faults int nat
  | Renew faults int string
  | Unblock faults int string
  | Delete faults string
  | Reconcile bool faults faults int
  | ListAvailable faults
  | ListAssigned faults int

fun step :: "call \<Rightarrow> store \<Rightarrow> store" where
  "step (Generate f now token) s = snd (SaveToken f now token s)"
| "step (Assign f now n) s = snd (AssignToken f now n s)"
| "step (Renew f now token) s = snd (KeepAlive f now token s)"
| "step (Unblock f now token) s = snd (UnblockToken f now token s)"
| "step (Delete f token) s = snd (DeleteToken f token s)"
| "step (Reconcile assigned_first fa fp now) s =
     snd (CleanupExpiredTokens assigned_first fa fp now s)"
| "step (ListAvailable f) s = snd (GetAvailableTokens f s)"
| "step (ListAssigned f now) s = snd (GetAssignedTokensWithExpiry f now s)"

text \<open>A fresh UUID does not collide with a token the store holds: a \<open>Generate\<close> call is
  admissible when its token is in neither set. Every other call is always admissible.\<close>

fun admissible :: "call \<Rightarrow> store \<Rightarrow> bool" where
  "admissible (Generate f now token) s = (token \<notin> set (pool s) \<and> token \<notin> set (assigned s))"
| "admissible c s = True"

text \<open>\<open>run cs s\<close> is the store after the calls \<open>cs\<close>, made one after the other from \<open>s\<close>;
  \<open>None\<close> when some call is not admissible where it is made.\<close>

fun run :: "call list \<Rightarrow> store \<Rightarrow> store option" where
  "run [] s = Some s"
| "run (c # cs) s = (if admissible c s then run cs (step c s) else None)"

text \<open>I1: no token is a member of both sets.\<close>

definition exclusive :: "store \<Rightarrow> bool" where
  "exclusive s = (set (pool s) \<inter> set (assigned s) = {})"

text \<open>An example: \<^verbatim>\<open>a1\<close> is generated and assigned at time 0, released by the
  reconciliation at time 120, and \<^verbatim>\<open>b2\<close> is generated at time 130.\<close>

definition example_calls :: "call list" where
  "example_calls =
     [Generate no_faults 0 ''a1'', Assign no_faults 0 0,
      Reconcile True no_faults no_faults 120, Generate no_faults 130 ''b2'']"

section \<open>What a sweep decides for a token\<close>

text \<open>
  The notions below are read off the branches of the two loops and serve to state what
  a sweep without failures does to the store. \<open>stale\<close> is the condition under which
  either sweep deletes a token whose score it reads from \<open>s\<close> (no keepalive entry, or a
  score of at most \<open>deleteBefore\<close>); \<open>lapsed\<close> is the condition under which the assigned
  sweep releases it.
\<close>

definition stale :: "int \<Rightarrow> store \<Rightarrow> string \<Rightarrow> bool" where
  "stale deleteBefore s t =
     (case keepalive s t of None \<Rightarrow> True | Some d \<Rightarrow> d \<le> deleteBefore)"

definition lapsed :: "int \<Rightarrow> int \<Rightarrow> store \<Rightarrow> string \<Rightarrow> bool" where
  "lapsed releaseBefore deleteBefore s t =
     (case keepalive s t of None \<Rightarrow> False
      | Some d \<Rightarrow> \<not> d \<le> deleteBefore \<and> d \<le> releaseBefore)"

text \<open>The commands the assigned loop and the pool loop queue for one token.\<close>

definition assigned_cmds :: "int \<Rightarrow> int \<Rightarrow> store \<Rightarrow> string \<Rightarrow> cmd list" where
  "assigned_cmds releaseBefore deleteBefore s t =
     (if stale deleteBefore s t then [SRem KeyAssignedTokens t, ZRem t]
      else if lapsed releaseBefore deleteBefore s t
      then [SRem KeyAssignedTokens t, SAdd KeyTokenPool t]
      else [])"

definition pool_cmds :: "int \<Rightarrow> store \<Rightarrow> string \<Rightarrow> cmd list" where
  "pool_cmds deleteBefore s t =
     (case keepalive s t of
        None \<Rightarrow> [SRem KeyTokenPool t]
      | Some d \<Rightarrow> if d \<le> deleteBefore then [SRem KeyTokenPool t, ZRem t] else [])"

text \<open>The members of a set after \<^verbatim>\<open>SADD\<close> of each token of a list in turn.\<close>

fun add_members :: "string list \<Rightarrow> string list \<Rightarrow> string list" where
  "add_members p [] = p"
| "add_members p (t # ts) = add_members (if t \<in> set p then p else p @ [t]) ts"

section \<open>Properties\<close>

subsection \<open>Effects of the store commands\<close>

lemmas prim_defs = sadd_def srem_def zadd_def zrem_def exec_def



subsection \<open>Evaluating the examples\<close>

lemma leased_store_eq:
  "leased_store =
     \<lparr>pool = [], assigned = [''a1''], keepalive = [''a1'' \<mapsto> 60], locks = [''a1'' \<mapsto> 60]\<rparr>"
  by (simp add: leased_store_def fresh_store_def AssignToken_def SaveToken_def no_faults_def
      empty_store_def spop_def setnx_def lock_held_def prim_defs Let_def TokenLockTime_def)

lemmas sweep_defs =
  CleanupExpiredTokens_def cleanupExpiredTokens_def cleanupAssignedTokens_def
  cleanupPoolTokens_def collect_def no_result_def zscore_def
  TokenAutoReleaseTime_def TokenDeletionTime_def

subsection \<open>Delete\<close>

lemma DeleteToken_run:
  "run_cmds [SRem KeyTokenPool t, SRem KeyAssignedTokens t, ZRem t] s =
     ([if t \<in> set (pool s) then 1 else 0, if t \<in> set (assigned s) then 1 else 0,
       if keepalive s t = None then 0 else 1],
      s\<lparr>pool := removeAll t (pool s), assigned := removeAll t (assigned s),
        keepalive := (keepalive s)(t := None)\<rparr>)"
  by (auto simp: prim_defs fun_upd_idem split: option.splits)



text \<open>
  C9. A token that is in neither set but still has a keepalive entry (as after an
  \<^verbatim>\<open>AssignToken\<close> whose transaction failed once the token was popped) is never
  reported as not found by \<^verbatim>\<open>DeleteToken\<close>. When the delete transaction goes through,
  the \<^verbatim>\<open>ZREM\<close> reply is 1: the call returns success and the keepalive entry is gone.
\<close>

theorem DeleteToken_orphan_keepalive:
  "t \<notin> set (pool s) \<Longrightarrow> t \<notin> set (assigned s) \<Longrightarrow> keepalive s t = Some d \<Longrightarrow>
     fst (DeleteToken f t s) \<noteq> Inl ErrTokenNotFound
     \<and> (\<not> f 0 \<longrightarrow>
          fst (DeleteToken f t s) = Inr ()
          \<and> keepalive (snd (DeleteToken f t s)) t = None)"
  by (simp add: DeleteToken_def exec_def DeleteToken_run del: run_cmds.simps)

lemma orphan_store_eval:
  "pool orphan_store = [] \<and> assigned orphan_store = [] \<and> keepalive orphan_store ''a1'' = Some 0"
  by (simp add: orphan_store_def fresh_store_def AssignToken_def SaveToken_def no_faults_def
      only_call_def empty_store_def spop_def setnx_def lock_held_def del_lock_def prim_defs
      Let_def)

theorem DeleteToken_orphan_keepalive_witness:
  "''a1'' \<notin> set (pool orphan_store) \<and> ''a1'' \<notin> set (assigned orphan_store)
   \<and> keepalive orphan_store ''a1'' = Some 0 \<and> \<not> no_faults 0
   \<and> fst (DeleteToken no_faults ''a1'' orphan_store) = Inr ()
   \<and> keepalive (snd (DeleteToken no_faults ''a1'' orphan_store)) ''a1'' = None"
  using DeleteToken_orphan_keepalive [of "''a1''" orphan_store 0 no_faults] orphan_store_eval
  by (simp add: no_faults_def)

subsection \<open>Listing\<close>

lemma leased_store_eval:
  "pool leased_store = [] \<and> assigned leased_store = [''a1'']
   \<and> keepalive leased_store = [''a1'' \<mapsto> 60]"
  by (simp add: leased_store_eq)

lemma expiry_loop_result:
  "expiry_loop f i now s ts m0 = Inr m \<Longrightarrow>
     m t = (if t \<in> set ts
            then Some (case keepalive s t of None \<Rightarrow> - 1 | Some d \<Rightarrow> max (d - now) (- 1))
            else m0 t)"
proof (induction ts arbitrary: i m0)
  case Nil
  then show ?case by simp
next
  case (Cons a ts)
  show ?case
  proof (cases "zscore (f i) a s")
    case RNil
    with Cons.prems have "expiry_loop f (Suc i) now s ts (m0(a \<mapsto> - 1)) = Inr m"
      by simp
    from Cons.IH [OF this] RNil show ?thesis
      by (auto simp: zscore_def split: if_splits option.splits)
  next
    case RErr
    with Cons.prems show ?thesis by simp
  next
    case (RVal d)
    with Cons.prems
    have "expiry_loop f (Suc i) now s ts (m0(a \<mapsto> max (d - now) (- 1))) = Inr m"
      by (simp add: Let_def)
    from Cons.IH [OF this] RVal show ?thesis
      by (auto simp: zscore_def split: if_splits option.splits)
  qed
qed

lemma expiry_loop_total:
  "\<forall>j\<ge>i. \<not> f j \<Longrightarrow> \<exists>m. expiry_loop f i now s ts m0 = Inr m"
proof (induction ts arbitrary: i m0)
  case Nil
  then show ?case by simp
next
  case (Cons a ts)
  then have "\<forall>j\<ge>Suc i. \<not> f j" and "\<not> f i" by auto
  with Cons.IH show ?case
    by (cases "keepalive s a") (simp_all add: zscore_def Let_def)
qed

text \<open>
  C7. \<^verbatim>\<open>GetAssignedTokensWithExpiry\<close> returns a map when no store call fails, and any
  map it returns gives each assigned token \<open>deadline - now\<close> when the token has a keepalive
  entry and that difference is above \<open>-1\<close>, and \<open>-1\<close> otherwise; no value is below \<open>-1\<close>.
\<close>

theorem GetAssignedTokensWithExpiry_values:
  "((\<forall>i. \<not> f i) \<longrightarrow> (\<exists>m. fst (GetAssignedTokensWithExpiry f now s) = Inr m))
   \<and> (\<forall>m. fst (GetAssignedTokensWithExpiry f now s) = Inr m \<longrightarrow>
        (\<forall>t \<in> set (assigned s).
           m t = Some (case keepalive s t of
                         None \<Rightarrow> - 1
                       | Some d \<Rightarrow> if d - now > - 1 then d - now else - 1))
        \<and> (\<forall>t v. m t = Some v \<longrightarrow> - 1 \<le> v))"
proof (intro conjI impI allI)
  assume "\<forall>i. \<not> f i"
  then show "\<exists>m. fst (GetAssignedTokensWithExpiry f now s) = Inr m"
    using expiry_loop_total [of 1 f now s "assigned s" Map.empty]
    by (simp add: GetAssignedTokensWithExpiry_def)
next
  fix m
  assume "fst (GetAssignedTokensWithExpiry f now s) = Inr m"
  then have loop: "expiry_loop f 1 now s (assigned s) Map.empty = Inr m"
    by (simp add: GetAssignedTokensWithExpiry_def split: if_splits)
  show "\<forall>t \<in> set (assigned s).
           m t = Some (case keepalive s t of
                         None \<Rightarrow> - 1
                       | Some d \<Rightarrow> if d - now > - 1 then d - now else - 1)"
    using expiry_loop_result [OF loop] by (auto split: option.splits)
  show "\<And>t v. m t = Some v \<Longrightarrow> - 1 \<le> v"
    using expiry_loop_result [OF loop] by (auto split: option.splits if_splits)
qed

theorem GetAssignedTokensWithExpiry_values_witness:
  "\<exists>m. fst (GetAssignedTokensWithExpiry no_faults 10 leased_store) = Inr m
       \<and> m ''a1'' = Some 50"
proof -
  from GetAssignedTokensWithExpiry_values [of no_faults 10 leased_store]
  obtain m where m: "fst (GetAssignedTokensWithExpiry no_faults 10 leased_store) = Inr m"
    and v: "\<forall>t \<in> set (assigned leased_store).
           m t = Some (case keepalive leased_store t of
                         None \<Rightarrow> - 1
                       | Some d \<Rightarrow> if d - 10 > - 1 then d - 10 else - 1)"
    unfolding no_faults_def by blast
  from v have "m ''a1'' = Some 50" by (simp add: leased_store_eval)
  with m show ?thesis by blast
qed

text \<open>
  C10. \<^verbatim>\<open>GetAvailableTokens\<close> and \<^verbatim>\<open>GetAssignedTokensWithExpiry\<close> only read
  (\<^verbatim>\<open>SMEMBERS\<close>, \<^verbatim>\<open>ZSCORE\<close>): whatever they return, the store they leave is the store
  they found, so the pool, the assigned set and the keepalive index are unchanged.
\<close>

theorem list_operations_read_only:
  "pool (snd (GetAvailableTokens f s)) = pool s
   \<and> assigned (snd (GetAvailableTokens f s)) = assigned s
   \<and> keepalive (snd (GetAvailableTokens f s)) = keepalive s
   \<and> pool (snd (GetAssignedTokensWithExpiry f' now s)) = pool s
   \<and> assigned (snd (GetAssignedTokensWithExpiry f' now s)) = assigned s
   \<and> keepalive (snd (GetAssignedTokensWithExpiry f' now s)) = keepalive s"
  by (simp add: GetAvailableTokens_def GetAssignedTokensWithExpiry_def)

subsection \<open>A failing sweep\<close>

lemma assigned_loop_error:
  "assigned_loop f i rb db s ts (pipe, r) = (pipe', r') \<Longrightarrow>
     ProcessingError r' = ProcessingError r"
proof (induction ts arbitrary: i pipe r)
  case Nil
  then show ?case by simp
next
  case (Cons a ts)
  from Cons.prems show ?case
    by (auto split: reply.splits if_splits dest!: Cons.IH)
qed

lemma pool_loop_error:
  "pool_loop f i db s ts (pipe, r) = Inr (pipe', r') \<Longrightarrow>
     ProcessingError r' = ProcessingError r"
proof (induction ts arbitrary: i pipe r)
  case Nil
  then show ?case by simp
next
  case (Cons a ts)
  from Cons.prems show ?case
    by (auto split: reply.splits if_splits dest!: Cons.IH)
qed

lemma exec_cases:
  "exec fail pipe s = (if fail then (None, s) else (Some (fst (run_cmds pipe s)), snd (run_cmds pipe s)))"
  by (simp add: exec_def split: prod.splits)

lemma cleanupAssignedTokens_failed:
  assumes "ProcessingError (fst (cleanupAssignedTokens f rb db s)) \<noteq> None"
  shows "snd (cleanupAssignedTokens f rb db s) = s"
proof (cases "f 0 \<or> assigned s = []")
  case True
  then show ?thesis by (auto simp: cleanupAssignedTokens_def)
next
  case False
  obtain pipe r where loop: "assigned_loop f 1 rb db s (assigned s) ([], no_result) = (pipe, r)"
    by (cases "assigned_loop f 1 rb db s (assigned s) ([], no_result)")
  then have "ProcessingError r = None"
    using assigned_loop_error [OF loop] by (simp add: no_result_def)
  with assms False loop show ?thesis
    by (auto simp: cleanupAssignedTokens_def exec_cases split: if_splits)
qed

lemma cleanupPoolTokens_failed:
  assumes "ProcessingError (fst (cleanupPoolTokens f db s)) \<noteq> None"
  shows "snd (cleanupPoolTokens f db s) = s"
proof (cases "f 0 \<or> pool s = []")
  case True
  then show ?thesis by (auto simp: cleanupPoolTokens_def)
next
  case False
  show ?thesis
  proof (cases "pool_loop f 1 db s (pool s) ([], no_result)")
    case (Inl r)
    with False show ?thesis by (simp add: cleanupPoolTokens_def)
  next
    case (Inr pr)
    obtain pipe r where pr: "pr = (pipe, r)" by (cases pr)
    with Inr have "ProcessingError r = None"
      using pool_loop_error [of f 1 db s "pool s" "[]" no_result pipe r]
      by (simp add: no_result_def)
    with assms False Inr pr show ?thesis
      by (auto simp: cleanupPoolTokens_def exec_cases split: if_splits)
  qed
qed

lemma cleanupExpiredTokens_unfold:
  "cleanupExpiredTokens b fa fp now s =
     (if b
      then (collect (collect no_result (fst (cleanupAssignedTokens fa (now - 60) (now - 300) s)))
              (fst (cleanupPoolTokens fp (now - 300)
                 (snd (cleanupAssignedTokens fa (now - 60) (now - 300) s)))),
            snd (cleanupPoolTokens fp (now - 300)
                 (snd (cleanupAssignedTokens fa (now - 60) (now - 300) s))))
      else (collect (collect no_result (fst (cleanupPoolTokens fp (now - 300) s)))
              (fst (cleanupAssignedTokens fa (now - 60) (now - 300)
                 (snd (cleanupPoolTokens fp (now - 300) s)))),
            snd (cleanupAssignedTokens fa (now - 60) (now - 300)
                 (snd (cleanupPoolTokens fp (now - 300) s)))))"
  by (simp add: cleanupExpiredTokens_def Let_def TokenAutoReleaseTime_def
      TokenDeletionTime_def split: prod.splits)

lemma CleanupExpiredTokens_unfold:
  "CleanupExpiredTokens b fa fp now s =
     (case ProcessingError (fst (cleanupExpiredTokens b fa fp now s)) of
        Some e \<Rightarrow> (Inl e, snd (cleanupExpiredTokens b fa fp now s))
      | None \<Rightarrow>
          (Inr (Map.empty(''assigned_tokens'' \<mapsto>
                   TokensReleased (fst (cleanupExpiredTokens b fa fp now s)),
                 ''token_pool'' \<mapsto>
                   TokensDeleted (fst (cleanupExpiredTokens b fa fp now s)))),
           snd (cleanupExpiredTokens b fa fp now s)))"
  by (simp add: CleanupExpiredTokens_def case_prod_beta)

lemma collect_error:
  "ProcessingError (collect (collect no_result r1) r2) =
     (case ProcessingError r1 of Some e \<Rightarrow> Some e | None \<Rightarrow> ProcessingError r2)"
  by (simp add: collect_def no_result_def split: option.splits)

text \<open>
  C3, as the code has it. When one sweep reports an error and the other does not,
  \<^verbatim>\<open>CleanupExpiredTokens\<close> returns that error and no counts (the map is \<^verbatim>\<open>nil\<close>);
  the store it leaves is the store the successful sweep alone produces from \<open>s\<close>: the
  committed sweep is not rolled back and the failed one has changed nothing. This holds
  in either order of the two sweeps.
\<close>

theorem Reconcile_one_sweep_fails:
  "(ProcessingError (fst (cleanupAssignedTokens fa (now - 60) (now - 300) s)) = None
    \<and> ProcessingError (fst (cleanupPoolTokens fp (now - 300)
          (if b then snd (cleanupAssignedTokens fa (now - 60) (now - 300) s) else s))) = Some e
    \<longrightarrow> CleanupExpiredTokens b fa fp now s
          = (Inl e, snd (cleanupAssignedTokens fa (now - 60) (now - 300) s)))
   \<and> (ProcessingError (fst (cleanupPoolTokens fp (now - 300) s)) = None
    \<and> ProcessingError (fst (cleanupAssignedTokens fa (now - 60) (now - 300)
          (if b then s else snd (cleanupPoolTokens fp (now - 300) s)))) = Some e
    \<longrightarrow> CleanupExpiredTokens b fa fp now s
          = (Inl e, snd (cleanupPoolTokens fp (now - 300) s)))"
proof (intro conjI impI)
  let ?A = "cleanupAssignedTokens fa (now - 60) (now - 300)"
  let ?P = "cleanupPoolTokens fp (now - 300)"
  assume h: "ProcessingError (fst (?A s)) = None
    \<and> ProcessingError (fst (?P (if b then snd (?A s) else s))) = Some e"
  show "CleanupExpiredTokens b fa fp now s = (Inl e, snd (?A s))"
  proof (cases b)
    case True
    with h have "snd (?P (snd (?A s))) = snd (?A s)"
      using cleanupPoolTokens_failed [of fp "now - 300" "snd (?A s)"] by simp
    with h True show ?thesis
      by (simp add: CleanupExpiredTokens_unfold cleanupExpiredTokens_unfold collect_error)
  next
    case False
    with h have "snd (?P s) = s"
      using cleanupPoolTokens_failed [of fp "now - 300" s] by simp
    with h False show ?thesis
      by (simp add: CleanupExpiredTokens_unfold cleanupExpiredTokens_unfold collect_error)
  qed
next
  let ?A = "cleanupAssignedTokens fa (now - 60) (now - 300)"
  let ?P = "cleanupPoolTokens fp (now - 300)"
  assume h: "ProcessingError (fst (?P s)) = None
    \<and> ProcessingError (fst (?A (if b then s else snd (?P s)))) = Some e"
  show "CleanupExpiredTokens b fa fp now s = (Inl e, snd (?P s))"
  proof (cases b)
    case True
    with h have "snd (?A s) = s"
      using cleanupAssignedTokens_failed [of fa "now - 60" "now - 300" s] by simp
    with h True show ?thesis
      by (simp add: CleanupExpiredTokens_unfold cleanupExpiredTokens_unfold collect_error)
  next
    case False
    with h have "snd (?A (snd (?P s))) = snd (?P s)"
      using cleanupAssignedTokens_failed [of fa "now - 60" "now - 300" "snd (?P s)"] by simp
    with h False show ?thesis
      by (simp add: CleanupExpiredTokens_unfold cleanupExpiredTokens_unfold collect_error)
  qed
qed

text \<open>
  C3 as stated fails: on the lease of time 0, at \<open>now = 120\<close>, the assigned sweep
  commits one release without error, the pool sweep fails at its \<^verbatim>\<open>SMEMBERS\<close>, and
  the caller receives the error alone: the count of one released token is not reported.
\<close>

theorem Reconcile_drops_counts_counterexample:
  "TokensReleased (fst (cleanupAssignedTokens no_faults (120 - 60) (120 - 300) leased_store)) = 1
   \<and> ProcessingError (fst (cleanupAssignedTokens no_faults (120 - 60) (120 - 300) leased_store))
       = None
   \<and> pool (snd (CleanupExpiredTokens True no_faults (only_call 0) 120 leased_store)) = [''a1'']
   \<and> fst (CleanupExpiredTokens True no_faults (only_call 0) 120 leased_store)
       = Inl (Wrapped ''failed to fetch pool tokens'')"
  by (simp add: leased_store_eq sweep_defs no_faults_def only_call_def prim_defs)

theorem Reconcile_one_sweep_fails_witness:
  "CleanupExpiredTokens True no_faults (only_call 0) 120 leased_store
     = (Inl (Wrapped ''failed to fetch pool tokens''),
        snd (cleanupAssignedTokens no_faults (120 - 60) (120 - 300) leased_store))
   \<and> pool (snd (cleanupAssignedTokens no_faults (120 - 60) (120 - 300) leased_store)) = [''a1'']"
  using Reconcile_one_sweep_fails [of no_faults 120 leased_store "only_call 0" True
      "Wrapped ''failed to fetch pool tokens''"]
  by (simp add: leased_store_eq cleanupAssignedTokens_def cleanupPoolTokens_def no_result_def
      zscore_def no_faults_def only_call_def prim_defs)

subsection \<open>Mutual exclusion of the pool and the assigned set\<close>

lemma run_cmds_append:
  "snd (run_cmds (p @ q) s) = snd (run_cmds q (snd (run_cmds p s)))"
  by (induction p arbitrary: s) (simp_all add: case_prod_beta)

lemma exclusive_purge:
  "exclusive s \<Longrightarrow> exclusive (snd (run_cmds [SRem KeyAssignedTokens t, ZRem t] s))"
  by (auto simp: exclusive_def prim_defs split: option.splits)

lemma exclusive_release:
  "exclusive s \<Longrightarrow> exclusive (snd (run_cmds [SRem KeyAssignedTokens t, SAdd KeyTokenPool t] s))"
  by (auto simp: exclusive_def prim_defs split: option.splits)

lemma exclusive_pool_srem:
  "exclusive s \<Longrightarrow> exclusive (snd (run_cmds [SRem KeyTokenPool t] s))"
  by (auto simp: exclusive_def prim_defs split: option.splits)

lemma exclusive_pool_purge:
  "exclusive s \<Longrightarrow> exclusive (snd (run_cmds [SRem KeyTokenPool t, ZRem t] s))"
  by (auto simp: exclusive_def prim_defs split: option.splits)

lemma assigned_loop_exclusive:
  assumes "assigned_loop f i rb db s ts (pipe, r) = (pipe', r')"
    and "\<And>s'. exclusive s' \<Longrightarrow> exclusive (snd (run_cmds pipe s'))"
    and "exclusive s'"
  shows "exclusive (snd (run_cmds pipe' s'))"
  using assms
proof (induction ts arbitrary: i pipe r s')
  case Nil
  then show ?case by simp
next
  case (Cons a ts)
  let ?acc = "case zscore (f i) a s of
          RNil \<Rightarrow> (pipe @ [SRem KeyAssignedTokens a, ZRem a],
                   r\<lparr>TokensDeleted := TokensDeleted r + 1\<rparr>)
        | RErr \<Rightarrow> (pipe, r)
        | RVal expiryTime \<Rightarrow>
            if expiryTime \<le> db
            then (pipe @ [SRem KeyAssignedTokens a, ZRem a],
                  r\<lparr>TokensDeleted := TokensDeleted r + 1\<rparr>)
            else if expiryTime \<le> rb
            then (pipe @ [SRem KeyAssignedTokens a, SAdd KeyTokenPool a],
                  r\<lparr>TokensReleased := TokensReleased r + 1\<rparr>)
            else (pipe, r)"
  have safe: "\<And>s'. exclusive s' \<Longrightarrow> exclusive (snd (run_cmds (fst ?acc) s'))"
    using Cons.prems(2) exclusive_purge exclusive_release
    by (auto simp: run_cmds_append simp del: run_cmds.simps split: reply.splits)
  from Cons.prems(1) have "assigned_loop f (Suc i) rb db s ts (fst ?acc, snd ?acc) = (pipe', r')"
    by simp
  from Cons.IH [OF this safe Cons.prems(3)] show ?case .
qed

lemma pool_loop_exclusive:
  assumes "pool_loop f i db s ts (pipe, r) = Inr (pipe', r')"
    and "\<And>s'. exclusive s' \<Longrightarrow> exclusive (snd (run_cmds pipe s'))"
    and "exclusive s'"
  shows "exclusive (snd (run_cmds pipe' s'))"
  using assms
proof (induction ts arbitrary: i pipe r s')
  case Nil
  then show ?case by simp
next
  case (Cons a ts)
  show ?case
  proof (cases "zscore (f i) a s")
    case RNil
    with Cons.prems(1)
    have loop: "pool_loop f (Suc i) db s ts (pipe @ [SRem KeyTokenPool a],
                  r\<lparr>TokensDeleted := TokensDeleted r + 1\<rparr>) = Inr (pipe', r')"
      by simp
    have "\<And>s'. exclusive s' \<Longrightarrow> exclusive (snd (run_cmds (pipe @ [SRem KeyTokenPool a]) s'))"
      using Cons.prems(2) exclusive_pool_srem
      by (simp add: run_cmds_append del: run_cmds.simps)
    from Cons.IH [OF loop this Cons.prems(3)] show ?thesis .
  next
    case RErr
    with Cons.prems(1) show ?thesis by simp
  next
    case (RVal d)
    show ?thesis
    proof (cases "d \<le> db")
      case True
      with RVal Cons.prems(1)
      have loop: "pool_loop f (Suc i) db s ts (pipe @ [SRem KeyTokenPool a, ZRem a],
                  r\<lparr>TokensDeleted := TokensDeleted r + 1\<rparr>) = Inr (pipe', r')"
        by simp
      have "\<And>s'. exclusive s' \<Longrightarrow>
              exclusive (snd (run_cmds (pipe @ [SRem KeyTokenPool a, ZRem a]) s'))"
        using Cons.prems(2) exclusive_pool_purge
        by (simp add: run_cmds_append del: run_cmds.simps)
      from Cons.IH [OF loop this Cons.prems(3)] show ?thesis .
    next
      case False
      with RVal Cons.prems(1)
      have loop: "pool_loop f (Suc i) db s ts (pipe, r) = Inr (pipe', r')"
        by simp
      from Cons.IH [OF loop Cons.prems(2) Cons.prems(3)] show ?thesis .
    qed
  qed
qed

lemma cleanupAssignedTokens_snd:
  "snd (cleanupAssignedTokens f rb db s) =
     (if f 0 \<or> assigned s = [] \<or> f (Suc (length (assigned s))) then s
      else snd (run_cmds (fst (assigned_loop f 1 rb db s (assigned s) ([], no_result))) s))"
  by (simp add: cleanupAssignedTokens_def Let_def exec_def case_prod_beta)

lemma cleanupPoolTokens_snd:
  "snd (cleanupPoolTokens f db s) =
     (if f 0 \<or> pool s = [] \<or> f (Suc (length (pool s))) then s
      else case pool_loop f 1 db s (pool s) ([], no_result) of
             Inl r \<Rightarrow> s
           | Inr (pipe, r) \<Rightarrow> snd (run_cmds pipe s))"
  by (simp add: cleanupPoolTokens_def Let_def exec_def case_prod_beta split: sum.splits)

lemma cleanupAssignedTokens_exclusive:
  assumes "exclusive s"
  shows "exclusive (snd (cleanupAssignedTokens f rb db s))"
proof -
  obtain pipe r where loop: "assigned_loop f 1 rb db s (assigned s) ([], no_result) = (pipe, r)"
    by (cases "assigned_loop f 1 rb db s (assigned s) ([], no_result)")
  have "exclusive (snd (run_cmds pipe s))"
    using assigned_loop_exclusive [OF loop _ assms] by simp
  with assms loop show ?thesis
    by (simp add: cleanupAssignedTokens_snd)
qed

lemma cleanupPoolTokens_exclusive:
  assumes "exclusive s"
  shows "exclusive (snd (cleanupPoolTokens f db s))"
proof (cases "pool_loop f 1 db s (pool s) ([], no_result)")
  case (Inl r)
  with assms show ?thesis by (simp add: cleanupPoolTokens_snd)
next
  case (Inr pr)
  obtain pipe r where pr: "pr = (pipe, r)" by (cases pr)
  have "exclusive (snd (run_cmds pipe s))"
    using pool_loop_exclusive [of f 1 db s "pool s" "[]" no_result pipe r s] Inr pr assms
    by simp
  with assms Inr pr show ?thesis
    by (simp add: cleanupPoolTokens_snd)
qed

lemma SaveToken_exclusive:
  "exclusive s \<Longrightarrow> token \<notin> set (assigned s) \<Longrightarrow> exclusive (snd (SaveToken f now token s))"
  by (auto simp: SaveToken_def exclusive_def prim_defs Let_def)

lemma spop_Some:
  "spop n s = Some (t, s1) \<Longrightarrow> t \<in> set (pool s) \<and> s1 = s\<lparr>pool := removeAll t (pool s)\<rparr>"
  by (auto simp: spop_def Let_def split: if_splits)

lemma AssignToken_exclusive:
  assumes "exclusive s"
  shows "exclusive (snd (AssignToken f now n s))"
proof (cases "spop n s")
  case None
  with assms show ?thesis by (simp add: AssignToken_def)
next
  case (Some p)
  obtain t s1 where p: "p = (t, s1)" by (cases p)
  from Some p have t: "t \<in> set (pool s)" and s1: "s1 = s\<lparr>pool := removeAll t (pool s)\<rparr>"
    using spop_Some [of n s t s1] by simp_all
  from assms t have "t \<notin> set (assigned s)" by (auto simp: exclusive_def)
  with assms Some p s1 show ?thesis
    by (auto simp: AssignToken_def exclusive_def setnx_def del_lock_def prim_defs
        split: if_splits option.splits)
qed

lemma KeepAlive_exclusive:
  "exclusive s \<Longrightarrow> exclusive (snd (KeepAlive f now token s))"
  by (auto simp: KeepAlive_def exclusive_def prim_defs Let_def)

lemma UnblockToken_exclusive:
  "exclusive s \<Longrightarrow> exclusive (snd (UnblockToken f now token s))"
  by (auto simp: UnblockToken_def exclusive_def prim_defs Let_def split: option.splits)

lemma DeleteToken_exclusive:
  "exclusive s \<Longrightarrow> exclusive (snd (DeleteToken f token s))"
  by (auto simp: DeleteToken_def exclusive_def prim_defs Let_def split: option.splits)

lemma CleanupExpiredTokens_exclusive:
  "exclusive s \<Longrightarrow> exclusive (snd (CleanupExpiredTokens b fa fp now s))"
  by (simp add: CleanupExpiredTokens_def cleanupExpiredTokens_def Let_def case_prod_beta
      cleanupAssignedTokens_exclusive cleanupPoolTokens_exclusive split: option.splits)

lemma step_exclusive:
  "exclusive s \<Longrightarrow> admissible c s \<Longrightarrow> exclusive (step c s)"
  by (cases c)
    (simp_all add: SaveToken_exclusive AssignToken_exclusive KeepAlive_exclusive
      UnblockToken_exclusive DeleteToken_exclusive CleanupExpiredTokens_exclusive
      GetAvailableTokens_def GetAssignedTokensWithExpiry_def)

lemma run_exclusive:
  "exclusive s \<Longrightarrow> run cs s = Some s' \<Longrightarrow> exclusive s'"
  by (induction cs arbitrary: s) (auto intro: step_exclusive split: if_splits)

lemma run_take:
  "run cs s \<noteq> None \<Longrightarrow> run (take k cs) s \<noteq> None"
proof (induction cs arbitrary: s k)
  case Nil
  then show ?case by simp
next
  case (Cons c cs)
  then show ?case by (cases k) (auto split: if_splits)
qed

text \<open>
  C1. Start from the empty store and make any sequence of completed calls
  (\<^verbatim>\<open>Generate\<close> with a fresh token, \<^verbatim>\<open>Assign\<close>, \<^verbatim>\<open>Renew\<close>, \<^verbatim>\<open>Unblock\<close>,
  \<^verbatim>\<open>Delete\<close>, \<^verbatim>\<open>Reconcile\<close>, the two listings), each with any failures of its store
  requests. In the store after the first \<open>k\<close> calls, for every \<open>k\<close>, no token is
  a member of both the pool and the assigned set: each token is available, assigned or
  in neither.
\<close>

theorem pool_and_assigned_exclusive:
  "run cs empty_store \<noteq> None \<Longrightarrow>
     \<exists>s. run (take k cs) empty_store = Some s
         \<and> (\<forall>t. \<not> (t \<in> set (pool s) \<and> t \<in> set (assigned s)))"
proof -
  assume "run cs empty_store \<noteq> None"
  then obtain s where s: "run (take k cs) empty_store = Some s"
    using run_take [of cs empty_store k] by auto
  have "exclusive empty_store" by (simp add: exclusive_def empty_store_def)
  from run_exclusive [OF this s] have "exclusive s" .
  with s show ?thesis by (auto simp: exclusive_def)
qed


lemma example_calls_run:
  "run (take 2 example_calls) empty_store
     = Some \<lparr>pool = [], assigned = [''a1''], keepalive = [''a1'' \<mapsto> 60],
             locks = [''a1'' \<mapsto> 60]\<rparr>"
  by (simp add: example_calls_def numeral_2_eq_2 AssignToken_def SaveToken_def no_faults_def
      empty_store_def spop_def setnx_def lock_held_def prim_defs Let_def TokenLockTime_def)

lemma example_calls_admissible: "run example_calls empty_store \<noteq> None"
  by (simp add: example_calls_def AssignToken_def SaveToken_def no_faults_def
      empty_store_def spop_def setnx_def lock_held_def prim_defs Let_def TokenLockTime_def
      sweep_defs)

theorem pool_and_assigned_exclusive_witness:
  "run example_calls empty_store \<noteq> None
   \<and> (\<exists>s. run (take 2 example_calls) empty_store = Some s
          \<and> ''a1'' \<in> set (assigned s) \<and> ''a1'' \<notin> set (pool s))"
  using pool_and_assigned_exclusive [OF example_calls_admissible, of 2] example_calls_run
    example_calls_admissible
  by auto

text \<open>The repository's \<^verbatim>\<open>SaveToken\<close> does not itself check its argument: given a token
  that is assigned, it adds it to the pool as well. The service never does so, since it
  passes a fresh UUID.\<close>

lemma SaveToken_of_assigned_token:
  "\<not> f 0 \<Longrightarrow> token \<in> set (assigned s) \<Longrightarrow> \<not> exclusive (snd (SaveToken f now token s))"
  by (auto simp: SaveToken_def exclusive_def prim_defs Let_def)

subsection \<open>Assign, when its transaction fails\<close>

lemma fresh_store_eq:
  "fresh_store = \<lparr>pool = [''a1''], assigned = [], keepalive = [''a1'' \<mapsto> 0], locks = Map.empty\<rparr>"
  by (simp add: fresh_store_def SaveToken_def no_faults_def empty_store_def prim_defs)

text \<open>
  C5, as the code has it. Take a store reached from the empty one and an
  \<^verbatim>\<open>AssignToken\<close> call that pops \<open>t\<close> (call 0), acquires its lock (call 1) and whose
  transaction (call 2) fails. The call returns the error, and on return \<open>t\<close> is in
  neither the pool nor the assigned set. The lock is deleted (call 3) without looking at
  the outcome: it is gone on return when that \<^verbatim>\<open>DEL\<close> goes through, and otherwise it
  stays until its time to live runs out.
\<close>

theorem AssignToken_transaction_failure:
  assumes "run cs empty_store = Some s"
    and "\<not> f 0" and "spop n s = Some (t, s1)"
    and "\<not> f 1" and "\<not> lock_held now s t"
    and "f 2"
  shows "fst (AssignToken f now n s) = Inl RedisErr
         \<and> t \<notin> set (pool (snd (AssignToken f now n s)))
         \<and> t \<notin> set (assigned (snd (AssignToken f now n s)))
         \<and> (\<not> f 3 \<longrightarrow> locks (snd (AssignToken f now n s)) t = None)
         \<and> (f 3 \<longrightarrow> locks (snd (AssignToken f now n s)) t = Some (now + TokenLockTime))"
proof -
  have "exclusive empty_store" by (simp add: exclusive_def empty_store_def)
  from run_exclusive [OF this assms(1)] have excl: "exclusive s" .
  from assms(3) have t: "t \<in> set (pool s)" and s1: "s1 = s\<lparr>pool := removeAll t (pool s)\<rparr>"
    using spop_Some [of n s t s1] by simp_all
  from excl t have "t \<notin> set (assigned s)" by (auto simp: exclusive_def)
  with assms s1 show ?thesis
    by (simp add: AssignToken_def setnx_def lock_held_def del_lock_def exec_def)
qed

theorem AssignToken_transaction_failure_witness:
  "fst (AssignToken (only_call 2) 0 0 fresh_store) = Inl RedisErr
   \<and> locks (snd (AssignToken (only_call 2) 0 0 fresh_store)) ''a1'' = None
   \<and> ''a1'' \<notin> set (pool (snd (AssignToken (only_call 2) 0 0 fresh_store)))
   \<and> ''a1'' \<notin> set (assigned (snd (AssignToken (only_call 2) 0 0 fresh_store)))"
proof -
  have "run [Generate no_faults 0 ''a1''] empty_store = Some fresh_store"
    by (simp add: fresh_store_def empty_store_def)
  moreover have "spop 0 fresh_store = Some (''a1'', fresh_store\<lparr>pool := []\<rparr>)"
    by (simp add: fresh_store_eq spop_def Let_def)
  moreover have "\<not> lock_held 0 fresh_store ''a1''"
    by (simp add: fresh_store_eq lock_held_def)
  ultimately show ?thesis
    using AssignToken_transaction_failure [of "[Generate no_faults 0 ''a1'']" fresh_store
        "only_call 2" 0 "''a1''" "fresh_store\<lparr>pool := []\<rparr>" 0]
    by (simp add: only_call_def)
qed

text \<open>
  C5 as stated fails: \<^verbatim>\<open>a1\<close> waits in the pool, the store is lost after the lock was
  acquired, so the transaction (call 2) and the \<^verbatim>\<open>DEL\<close> of the lock (call 3) both fail.
  \<^verbatim>\<open>AssignToken\<close> returns the error with the lock of \<^verbatim>\<open>a1\<close> still held.
\<close>

theorem AssignToken_lock_not_released_counterexample:
  "\<not> from_call 2 0 \<and> spop 0 fresh_store = Some (''a1'', fresh_store\<lparr>pool := []\<rparr>)
   \<and> \<not> from_call 2 1 \<and> \<not> lock_held 0 fresh_store ''a1''
   \<and> from_call 2 2
   \<and> fst (AssignToken (from_call 2) 0 0 fresh_store) = Inl RedisErr
   \<and> locks (snd (AssignToken (from_call 2) 0 0 fresh_store)) ''a1'' = Some 60
   \<and> lock_held 0 (snd (AssignToken (from_call 2) 0 0 fresh_store)) ''a1''"
  by (simp add: fresh_store_eq AssignToken_def spop_def setnx_def lock_held_def del_lock_def
      exec_def from_call_def Let_def TokenLockTime_def)

subsection \<open>The two sweeps without failures\<close>

lemma no_faults_apply: "no_faults i = False"
  by (simp add: no_faults_def)

lemma zscore_no_faults:
  "zscore (no_faults i) t s = (case keepalive s t of None \<Rightarrow> RNil | Some v \<Rightarrow> RVal v)"
  by (simp add: zscore_def no_faults_def)

lemma assigned_loop_no_faults:
  "assigned_loop no_faults i rb db s ts (pipe, r) =
     (pipe @ concat (map (assigned_cmds rb db s) ts),
      r\<lparr>TokensReleased := TokensReleased r + int (length (filter (lapsed rb db s) ts)),
        TokensDeleted := TokensDeleted r + int (length (filter (stale db s) ts))\<rparr>)"
proof (induction ts arbitrary: i pipe r)
  case Nil
  then show ?case by simp
next
  case (Cons a ts)
  consider (purge) "stale db s a" | (release) "\<not> stale db s a" "lapsed rb db s a"
    | (keep) "\<not> stale db s a" "\<not> lapsed rb db s a"
    by blast
  then show ?case
  proof cases
    case purge
    then have "\<not> lapsed rb db s a"
      and "assigned_cmds rb db s a = [SRem KeyAssignedTokens a, ZRem a]"
      by (auto simp: stale_def lapsed_def assigned_cmds_def split: option.splits)
    with purge show ?thesis
      by (auto simp: Cons.IH zscore_no_faults stale_def split: option.splits)
  next
    case release
    then have "assigned_cmds rb db s a = [SRem KeyAssignedTokens a, SAdd KeyTokenPool a]"
      by (simp add: assigned_cmds_def)
    with release show ?thesis
      by (auto simp: Cons.IH zscore_no_faults stale_def lapsed_def split: option.splits)
  next
    case keep
    then have "assigned_cmds rb db s a = []"
      by (simp add: assigned_cmds_def)
    with keep show ?thesis
      by (auto simp: Cons.IH zscore_no_faults stale_def lapsed_def split: option.splits)
  qed
qed

lemma pool_loop_no_faults:
  "pool_loop no_faults i db s ts (pipe, r) =
     Inr (pipe @ concat (map (pool_cmds db s) ts),
          r\<lparr>TokensDeleted := TokensDeleted r + int (length (filter (stale db s) ts))\<rparr>)"
proof (induction ts arbitrary: i pipe r)
  case Nil
  then show ?case by simp
next
  case (Cons a ts)
  show ?case
  proof (cases "keepalive s a")
    case None
    then have "stale db s a" and "pool_cmds db s a = [SRem KeyTokenPool a]"
      by (simp_all add: stale_def pool_cmds_def)
    with None show ?thesis
      by (simp add: Cons.IH zscore_no_faults)
  next
    case (Some d)
    then have "stale db s a = (d \<le> db)"
      and "pool_cmds db s a = (if d \<le> db then [SRem KeyTokenPool a, ZRem a] else [])"
      by (simp_all add: stale_def pool_cmds_def)
    with Some show ?thesis
      by (simp add: Cons.IH zscore_no_faults)
  qed
qed

lemma removeAll_filter: "removeAll t xs = filter (\<lambda>u. u \<noteq> t) xs"
  by (induction xs) auto

lemma run_assigned_cmds:
  "snd (run_cmds (concat (map (assigned_cmds rb db s) ts)) s') =
     s'\<lparr>pool := add_members (pool s') (filter (lapsed rb db s) ts),
        assigned := filter (\<lambda>u. u \<notin> set ts \<or> (\<not> stale db s u \<and> \<not> lapsed rb db s u))
                      (assigned s'),
        keepalive := (\<lambda>u. if u \<in> set ts \<and> stale db s u then None else keepalive s' u)\<rparr>"
proof (induction ts arbitrary: s')
  case Nil
  then show ?case by simp
next
  case (Cons a ts)
  let ?s1 = "snd (run_cmds (assigned_cmds rb db s a) s')"
  have stale_not_lapsed: "stale db s a \<Longrightarrow> \<not> lapsed rb db s a"
    by (auto simp: stale_def lapsed_def split: option.splits)
  have step: "snd (run_cmds (concat (map (assigned_cmds rb db s) (a # ts))) s') =
      ?s1\<lparr>pool := add_members (pool ?s1) (filter (lapsed rb db s) ts),
        assigned := filter (\<lambda>u. u \<notin> set ts \<or> (\<not> stale db s u \<and> \<not> lapsed rb db s u))
                      (assigned ?s1),
        keepalive := (\<lambda>u. if u \<in> set ts \<and> stale db s u then None else keepalive ?s1 u)\<rparr>"
    by (simp add: run_cmds_append Cons.IH del: run_cmds.simps)
  consider (purge) "stale db s a" | (release) "\<not> stale db s a" "lapsed rb db s a"
    | (keep) "\<not> stale db s a" "\<not> lapsed rb db s a"
    by blast
  then show ?case
  proof cases
    case purge
    then have one: "?s1 =
        s'\<lparr>assigned := removeAll a (assigned s'), keepalive := (keepalive s')(a := None)\<rparr>"
      by (auto simp: assigned_cmds_def prim_defs fun_upd_idem split: option.splits)
    show ?thesis
      unfolding step one using purge stale_not_lapsed
      by (auto simp: removeAll_filter fun_eq_iff intro!: store.equality filter_cong)
  next
    case release
    then have one: "?s1 =
        s'\<lparr>assigned := removeAll a (assigned s'),
           pool := (if a \<in> set (pool s') then pool s' else pool s' @ [a])\<rparr>"
      by (auto simp: assigned_cmds_def prim_defs)
    show ?thesis
      unfolding step one using release
      by (auto simp: removeAll_filter fun_eq_iff intro!: store.equality filter_cong)
  next
    case keep
    then have one: "?s1 = s'"
      by (auto simp: assigned_cmds_def)
    show ?thesis
      unfolding step one using keep
      by (auto simp: removeAll_filter fun_eq_iff intro!: store.equality filter_cong)
  qed
qed

lemma run_pool_cmds:
  "snd (run_cmds (concat (map (pool_cmds db s) ts)) s') =
     s'\<lparr>pool := filter (\<lambda>u. u \<notin> set ts \<or> \<not> stale db s u) (pool s'),
        assigned := assigned s',
        keepalive := (\<lambda>u. if u \<in> set ts \<and> stale db s u \<and> keepalive s u \<noteq> None then None
                          else keepalive s' u)\<rparr>"
proof (induction ts arbitrary: s')
  case Nil
  then show ?case by simp
next
  case (Cons a ts)
  let ?s1 = "snd (run_cmds (pool_cmds db s a) s')"
  have step: "snd (run_cmds (concat (map (pool_cmds db s) (a # ts))) s') =
      ?s1\<lparr>pool := filter (\<lambda>u. u \<notin> set ts \<or> \<not> stale db s u) (pool ?s1),
        assigned := assigned ?s1,
        keepalive := (\<lambda>u. if u \<in> set ts \<and> stale db s u \<and> keepalive s u \<noteq> None then None
                          else keepalive ?s1 u)\<rparr>"
    by (simp add: run_cmds_append Cons.IH del: run_cmds.simps)
  consider (none) "keepalive s a = None" | (purge) d where "keepalive s a = Some d" "d \<le> db"
    | (keep) d where "keepalive s a = Some d" "\<not> d \<le> db"
    by (cases "keepalive s a") auto
  then show ?case
  proof cases
    case none
    then have one: "?s1 = s'\<lparr>pool := removeAll a (pool s')\<rparr>" and "stale db s a"
      by (auto simp: pool_cmds_def prim_defs stale_def)
    with none show ?thesis
      unfolding step one
      by (auto simp: removeAll_filter fun_eq_iff intro!: store.equality filter_cong)
  next
    case purge
    then have one: "?s1 = s'\<lparr>pool := removeAll a (pool s'),
         keepalive := (keepalive s')(a := None)\<rparr>" and "stale db s a"
      by (auto simp: pool_cmds_def prim_defs stale_def fun_upd_idem split: option.splits)
    with purge show ?thesis
      unfolding step one
      by (auto simp: removeAll_filter fun_eq_iff intro!: store.equality filter_cong)
  next
    case keep
    then have one: "?s1 = s'" and "\<not> stale db s a"
      by (auto simp: pool_cmds_def stale_def)
    with keep show ?thesis
      unfolding step one
      by (auto simp: removeAll_filter fun_eq_iff intro!: store.equality filter_cong)
  qed
qed


lemma set_add_members: "set (add_members p ts) = set p \<union> set ts"
  by (induction ts arbitrary: p) auto

lemma filter_add_members:
  "(\<And>t. t \<in> set ts \<Longrightarrow> Q t) \<Longrightarrow> filter Q (add_members p ts) = add_members (filter Q p) ts"
  by (induction ts arbitrary: p) auto

lemma filter_add_members_none:
  "(\<And>t. t \<in> set ts \<Longrightarrow> \<not> Q t) \<Longrightarrow> filter Q (add_members p ts) = filter Q p"
  by (induction ts arbitrary: p) auto

lemma cleanupAssignedTokens_no_faults:
  "cleanupAssignedTokens no_faults rb db s =
     (\<lparr>TokensReleased = int (length (filter (lapsed rb db s) (assigned s))),
       TokensDeleted = int (length (filter (stale db s) (assigned s))),
       ProcessingError = None\<rparr>,
      s\<lparr>pool := add_members (pool s) (filter (lapsed rb db s) (assigned s)),
        assigned := filter (\<lambda>u. \<not> stale db s u \<and> \<not> lapsed rb db s u) (assigned s),
        keepalive := (\<lambda>u. if u \<in> set (assigned s) \<and> stale db s u then None
                          else keepalive s u)\<rparr>)"
proof (cases "assigned s = []")
  case True
  then show ?thesis
    by (simp add: cleanupAssignedTokens_def no_faults_apply [of 0] no_result_def)
next
  case False
  have "filter (\<lambda>u. u \<notin> set (assigned s) \<or> \<not> stale db s u \<and> \<not> lapsed rb db s u) (assigned s)
      = filter (\<lambda>u. \<not> stale db s u \<and> \<not> lapsed rb db s u) (assigned s)"
    by (auto intro!: filter_cong)
  with False show ?thesis
    by (simp add: cleanupAssignedTokens_def assigned_loop_no_faults exec_cases Let_def
        run_assigned_cmds no_result_def no_faults_apply [of 0]
        no_faults_apply [of "Suc (length (assigned s))"] del: run_cmds.simps)
qed

lemma cleanupPoolTokens_no_faults:
  "cleanupPoolTokens no_faults db s =
     (\<lparr>TokensReleased = 0,
       TokensDeleted = int (length (filter (stale db s) (pool s))),
       ProcessingError = None\<rparr>,
      s\<lparr>pool := filter (\<lambda>u. \<not> stale db s u) (pool s),
        keepalive := (\<lambda>u. if u \<in> set (pool s) \<and> stale db s u then None
                          else keepalive s u)\<rparr>)"
proof (cases "pool s = []")
  case True
  then show ?thesis
    by (simp add: cleanupPoolTokens_def no_faults_apply [of 0] no_result_def)
next
  case False
  have "filter (\<lambda>u. u \<notin> set (pool s) \<or> \<not> stale db s u) (pool s)
      = filter (\<lambda>u. \<not> stale db s u) (pool s)"
    by (auto intro!: filter_cong)
  moreover have "(\<lambda>u. if u \<in> set (pool s) \<and> stale db s u \<and> keepalive s u \<noteq> None then None
                          else keepalive s u)
      = (\<lambda>u. if u \<in> set (pool s) \<and> stale db s u then None else keepalive s u)"
    by (auto simp: fun_eq_iff)
  ultimately show ?thesis
    using False
    by (simp add: cleanupPoolTokens_def pool_loop_no_faults exec_cases Let_def
        run_pool_cmds no_result_def no_faults_apply [of 0]
        no_faults_apply [of "Suc (length (pool s))"] del: run_cmds.simps)
qed


lemma stale_after_purge:
  "keepalive s' = (\<lambda>u. if u \<in> X \<and> stale db s u then None else keepalive s u) \<Longrightarrow>
     stale db s' = stale db s"
  by (auto simp: stale_def fun_eq_iff split: option.splits)

lemma lapsed_after_purge:
  "keepalive s' = (\<lambda>u. if u \<in> X \<and> stale db s u then None else keepalive s u) \<Longrightarrow>
     lapsed rb db s' = lapsed rb db s"
  by (auto simp: stale_def lapsed_def fun_eq_iff split: option.splits)

lemma lapsed_not_stale: "lapsed rb db s u \<Longrightarrow> \<not> stale db s u"
  by (auto simp: stale_def lapsed_def split: option.splits)

lemma sweeps_commute_general:
  "snd (cleanupPoolTokens no_faults db (snd (cleanupAssignedTokens no_faults rb db s)))
     = snd (cleanupAssignedTokens no_faults rb db (snd (cleanupPoolTokens no_faults db s)))
   \<and> collect (collect no_result (fst (cleanupAssignedTokens no_faults rb db s)))
        (fst (cleanupPoolTokens no_faults db (snd (cleanupAssignedTokens no_faults rb db s))))
     = collect (collect no_result (fst (cleanupPoolTokens no_faults db s)))
        (fst (cleanupAssignedTokens no_faults rb db (snd (cleanupPoolTokens no_faults db s))))"
proof -
  define sA where "sA = snd (cleanupAssignedTokens no_faults rb db s)"
  define sP where "sP = snd (cleanupPoolTokens no_faults db s)"
  define L where "L = filter (lapsed rb db s) (assigned s)"
  have A: "pool sA = add_members (pool s) L"
    "assigned sA = filter (\<lambda>u. \<not> stale db s u \<and> \<not> lapsed rb db s u) (assigned s)"
    "keepalive sA = (\<lambda>u. if u \<in> set (assigned s) \<and> stale db s u then None else keepalive s u)"
    "locks sA = locks s"
    by (simp_all add: sA_def L_def cleanupAssignedTokens_no_faults)
  have P: "pool sP = filter (\<lambda>u. \<not> stale db s u) (pool s)"
    "assigned sP = assigned s"
    "keepalive sP = (\<lambda>u. if u \<in> set (pool s) \<and> stale db s u then None else keepalive s u)"
    "locks sP = locks s"
    by (simp_all add: sP_def cleanupPoolTokens_no_faults)
  have stA: "stale db sA = stale db s" by (rule stale_after_purge [OF A(3)])
  have stP: "stale db sP = stale db s" by (rule stale_after_purge [OF P(3)])
  have laP: "lapsed rb db sP = lapsed rb db s" by (rule lapsed_after_purge [OF P(3)])
  have L_fresh: "\<And>t. t \<in> set L \<Longrightarrow> \<not> stale db s t"
    by (auto simp: L_def lapsed_not_stale)
  have pool_eq: "filter (\<lambda>u. \<not> stale db s u) (add_members (pool s) L)
      = add_members (filter (\<lambda>u. \<not> stale db s u) (pool s)) L"
    using L_fresh by (rule filter_add_members)
  have count_eq: "filter (stale db s) (add_members (pool s) L) = filter (stale db s) (pool s)"
    using L_fresh by (rule filter_add_members_none)
  have keep_eq: "(\<lambda>u. if u \<in> set (add_members (pool s) L) \<and> stale db s u then None
                     else if u \<in> set (assigned s) \<and> stale db s u then None else keepalive s u)
      = (\<lambda>u. if u \<in> set (assigned s) \<and> stale db s u then None
              else if u \<in> set (pool s) \<and> stale db s u then None else keepalive s u)"
    using L_fresh by (auto simp: fun_eq_iff set_add_members)
  define sAP where "sAP = snd (cleanupPoolTokens no_faults db sA)"
  define sPA where "sPA = snd (cleanupAssignedTokens no_faults rb db sP)"
  have AP: "pool sAP = filter (\<lambda>u. \<not> stale db sA u) (pool sA)"
    "assigned sAP = assigned sA"
    "keepalive sAP = (\<lambda>u. if u \<in> set (pool sA) \<and> stale db sA u then None else keepalive sA u)"
    "locks sAP = locks sA"
    by (simp_all add: sAP_def cleanupPoolTokens_no_faults)
  have PA: "pool sPA = add_members (pool sP) (filter (lapsed rb db sP) (assigned sP))"
    "assigned sPA = filter (\<lambda>u. \<not> stale db sP u \<and> \<not> lapsed rb db sP u) (assigned sP)"
    "keepalive sPA = (\<lambda>u. if u \<in> set (assigned sP) \<and> stale db sP u then None
                          else keepalive sP u)"
    "locks sPA = locks sP"
    by (simp_all add: sPA_def cleanupAssignedTokens_no_faults)
  have "pool sAP = pool sPA"
    unfolding AP PA A P stA stP laP using pool_eq by (simp add: L_def)
  moreover have "assigned sAP = assigned sPA"
    unfolding AP PA A P stA stP laP by simp
  moreover have "keepalive sAP = keepalive sPA"
    unfolding AP PA A P stA stP laP using keep_eq by simp
  moreover have "locks sAP = locks sPA"
    unfolding AP PA A P by simp
  ultimately have store: "sAP = sPA"
    by (simp add: store.equality)
  have "TokensDeleted (fst (cleanupPoolTokens no_faults db sA))
      = int (length (filter (stale db s) (pool s)))"
    unfolding cleanupPoolTokens_no_faults A stA count_eq by simp
  moreover have "TokensReleased (fst (cleanupPoolTokens no_faults db sA)) = 0"
    "ProcessingError (fst (cleanupPoolTokens no_faults db sA)) = None"
    by (simp_all add: cleanupPoolTokens_no_faults)
  moreover have "TokensReleased (fst (cleanupAssignedTokens no_faults rb db sP))
      = int (length L)"
    "TokensDeleted (fst (cleanupAssignedTokens no_faults rb db sP))
      = int (length (filter (stale db s) (assigned s)))"
    "ProcessingError (fst (cleanupAssignedTokens no_faults rb db sP)) = None"
    unfolding cleanupAssignedTokens_no_faults P stP laP L_def by simp_all
  ultimately have counts:
    "collect (collect no_result (fst (cleanupAssignedTokens no_faults rb db s)))
        (fst (cleanupPoolTokens no_faults db sA))
     = collect (collect no_result (fst (cleanupPoolTokens no_faults db s)))
        (fst (cleanupAssignedTokens no_faults rb db sP))"
    by (simp add: collect_def no_result_def cleanupAssignedTokens_no_faults [of rb db s]
        cleanupPoolTokens_no_faults [of db s] L_def)
  from store counts show ?thesis
    by (simp add: sA_def sP_def sAP_def sPA_def)
qed

text \<open>
  C8. With no failing store call, and for any two thresholds, the assigned sweep followed
  by the pool sweep leaves the same store as the pool sweep followed by the assigned
  sweep, and the released and deleted counts add up to the same totals. Hence the two
  orders of \<^verbatim>\<open>cleanupExpiredTokens\<close> give the same store and the same aggregate result
  at any time \<open>now\<close>.
\<close>

theorem sweeps_commute:
  "snd (cleanupPoolTokens no_faults db (snd (cleanupAssignedTokens no_faults rb db s)))
     = snd (cleanupAssignedTokens no_faults rb db (snd (cleanupPoolTokens no_faults db s)))
   \<and> TokensReleased (fst (cleanupAssignedTokens no_faults rb db s))
       + TokensReleased
           (fst (cleanupPoolTokens no_faults db (snd (cleanupAssignedTokens no_faults rb db s))))
     = TokensReleased (fst (cleanupPoolTokens no_faults db s))
       + TokensReleased
           (fst (cleanupAssignedTokens no_faults rb db (snd (cleanupPoolTokens no_faults db s))))
   \<and> TokensDeleted (fst (cleanupAssignedTokens no_faults rb db s))
       + TokensDeleted
           (fst (cleanupPoolTokens no_faults db (snd (cleanupAssignedTokens no_faults rb db s))))
     = TokensDeleted (fst (cleanupPoolTokens no_faults db s))
       + TokensDeleted
           (fst (cleanupAssignedTokens no_faults rb db (snd (cleanupPoolTokens no_faults db s))))
   \<and> cleanupExpiredTokens True no_faults no_faults now s
     = cleanupExpiredTokens False no_faults no_faults now s"
proof -
  let ?A = "cleanupAssignedTokens no_faults rb db"
  let ?P = "cleanupPoolTokens no_faults db"
  from sweeps_commute_general [of db rb s]
  have store: "snd (?P (snd (?A s))) = snd (?A (snd (?P s)))"
    and sums: "collect (collect no_result (fst (?A s))) (fst (?P (snd (?A s))))
             = collect (collect no_result (fst (?P s))) (fst (?A (snd (?P s))))"
    by simp_all
  from sums have "TokensReleased (collect (collect no_result (fst (?A s))) (fst (?P (snd (?A s)))))
      = TokensReleased (collect (collect no_result (fst (?P s))) (fst (?A (snd (?P s)))))"
    and "TokensDeleted (collect (collect no_result (fst (?A s))) (fst (?P (snd (?A s)))))
      = TokensDeleted (collect (collect no_result (fst (?P s))) (fst (?A (snd (?P s)))))"
    by simp_all
  then have "TokensReleased (fst (?A s)) + TokensReleased (fst (?P (snd (?A s))))
      = TokensReleased (fst (?P s)) + TokensReleased (fst (?A (snd (?P s))))"
    and "TokensDeleted (fst (?A s)) + TokensDeleted (fst (?P (snd (?A s))))
      = TokensDeleted (fst (?P s)) + TokensDeleted (fst (?A (snd (?P s))))"
    by (simp_all add: collect_def no_result_def)
  moreover have "cleanupExpiredTokens True no_faults no_faults now s
     = cleanupExpiredTokens False no_faults no_faults now s"
    using sweeps_commute_general [of "now - 300" "now - 60" s]
    by (simp add: cleanupExpiredTokens_unfold)
  ultimately show ?thesis using store by simp
qed

subsection \<open>Reconciliation on a lease that is never renewed\<close>

text \<open>A successful \<^verbatim>\<open>AssignToken\<close> at time \<open>T\<close> leaves its token assigned, out of the
  pool, with the score \<open>T + 60\<close>.\<close>

lemma AssignToken_success:
  assumes "AssignToken f T n s = (Inr t, s')"
  shows "t \<in> set (assigned s') \<and> t \<notin> set (pool s') \<and> keepalive s' t = Some (T + 60)"
proof (cases "spop n s")
  case None
  with assms show ?thesis by (simp add: AssignToken_def split: if_splits)
next
  case (Some p)
  obtain u s1 where p: "p = (u, s1)" by (cases p)
  from Some p have s1: "s1 = s\<lparr>pool := removeAll u (pool s)\<rparr>"
    using spop_Some [of n s u s1] by simp
  from assms Some p s1 show ?thesis
    by (auto simp: AssignToken_def setnx_def prim_defs split: if_splits option.splits)
qed

text \<open>
  What one run without failures does, in either order of the sweeps, to a token that
  is assigned with the score \<open>T + 60\<close>: nothing before \<open>T + 120\<close>; from \<open>T + 120\<close> and
  before \<open>T + 360\<close> it moves the token to the pool; from \<open>T + 360\<close> it deletes the token.
  The sweep compares the score, which already holds the lease window, with
  \<open>now - 60\<close> and \<open>now - 300\<close>.
\<close>

lemma Reconcile_on_unrenewed_lease:
  assumes "t \<in> set (assigned s)" and "t \<notin> set (pool s)" and "keepalive s t = Some (T + 60)"
  shows "(now < T + 120 \<longrightarrow>
            t \<in> set (assigned (snd (CleanupExpiredTokens b no_faults no_faults now s)))
            \<and> t \<notin> set (pool (snd (CleanupExpiredTokens b no_faults no_faults now s))))
       \<and> (T + 120 \<le> now \<and> now < T + 360 \<longrightarrow>
            t \<notin> set (assigned (snd (CleanupExpiredTokens b no_faults no_faults now s)))
            \<and> t \<in> set (pool (snd (CleanupExpiredTokens b no_faults no_faults now s))))
       \<and> (T + 360 \<le> now \<longrightarrow>
            t \<notin> set (assigned (snd (CleanupExpiredTokens b no_faults no_faults now s)))
            \<and> t \<notin> set (pool (snd (CleanupExpiredTokens b no_faults no_faults now s))))"
proof -
  let ?rb = "now - 60" and ?db = "now - 300"
  define sA where "sA = snd (cleanupAssignedTokens no_faults ?rb ?db s)"
  have final: "snd (CleanupExpiredTokens b no_faults no_faults now s)
      = snd (cleanupPoolTokens no_faults ?db sA)"
    using sweeps_commute_general [of ?db ?rb s]
    by (simp add: CleanupExpiredTokens_unfold cleanupExpiredTokens_unfold sA_def
        split: option.splits)
  have st: "stale ?db s t = (T + 360 \<le> now)"
    and la: "lapsed ?rb ?db s t = (T + 120 \<le> now \<and> now < T + 360)"
    using assms(3) by (auto simp: stale_def lapsed_def)
  have A: "pool sA = add_members (pool s) (filter (lapsed ?rb ?db s) (assigned s))"
    "assigned sA = filter (\<lambda>u. \<not> stale ?db s u \<and> \<not> lapsed ?rb ?db s u) (assigned s)"
    "keepalive sA = (\<lambda>u. if u \<in> set (assigned s) \<and> stale ?db s u then None else keepalive s u)"
    by (simp_all add: sA_def cleanupAssignedTokens_no_faults)
  have stA: "stale ?db sA = stale ?db s" by (rule stale_after_purge [OF A(3)])
  have "assigned (snd (cleanupPoolTokens no_faults ?db sA)) = assigned sA"
    and "pool (snd (cleanupPoolTokens no_faults ?db sA))
         = filter (\<lambda>u. \<not> stale ?db s u) (pool sA)"
    by (simp_all add: cleanupPoolTokens_no_faults stA)
  with assms st la show ?thesis
    unfolding final by (auto simp: A set_add_members)
qed

text \<open>
  C2 at \<open>T = 0\<close>, \<open>now = T + 60\<close>: the token assigned at time 0 has the score 60, and the
  assigned sweep releases a score that is at most \<open>now - 60 = 0\<close>. After the run, in
  either order of the sweeps, the token is still assigned and not available, and the
  run reports nothing released.
\<close>

theorem Reconcile_at_lease_window_keeps_token_assigned:
  "assigned (snd (CleanupExpiredTokens True no_faults no_faults 60 leased_store)) = [''a1'']
   \<and> pool (snd (CleanupExpiredTokens True no_faults no_faults 60 leased_store)) = []
   \<and> assigned (snd (CleanupExpiredTokens False no_faults no_faults 60 leased_store)) = [''a1'']
   \<and> pool (snd (CleanupExpiredTokens False no_faults no_faults 60 leased_store)) = []"
  by (simp add: leased_store_eq sweep_defs no_faults_def prim_defs)

text \<open>
  C4 at \<open>T = 0\<close>, \<open>now = T + 300\<close>: the score 60 is above \<open>now - 300 = 0\<close>, so the token
  is not deleted; it is at most \<open>now - 60\<close>, so it is released. After the run the token is
  available, with its keepalive entry.
\<close>

theorem Reconcile_at_deletion_threshold_releases_token:
  "pool (snd (CleanupExpiredTokens True no_faults no_faults 300 leased_store)) = [''a1'']
   \<and> keepalive (snd (CleanupExpiredTokens True no_faults no_faults 300 leased_store)) ''a1''
       = Some 60
   \<and> pool (snd (CleanupExpiredTokens False no_faults no_faults 300 leased_store)) = [''a1'']
   \<and> keepalive (snd (CleanupExpiredTokens False no_faults no_faults 300 leased_store)) ''a1''
       = Some 60"
  by (simp add: leased_store_eq sweep_defs no_faults_def prim_defs)

end
